theory Spec2Isabelle
  imports Complex_Main "HOL-Library.Sublist"
begin

section \<open>Data model of \<open>decode_trace.py\<close>\<close>

text \<open>
  A sample is a row of the capture: a timestamp and a logic level. The source parses the
  timestamp with \<open>float\<close> and the level with \<open>int\<close>. Levels are Python integers
  and are modelled as \<open>int\<close>. Timestamps and durations are modelled as rationals, that
  is with exact arithmetic: comparisons, minima, differences and quotients are the
  mathematical ones, and the rounding error of IEEE doubles is outside the model.
  A run is a pair \<open>(level, duration)\<close>, in the order the source builds it.
\<close>

type_synonym sample = "rat \<times> int"
type_synonym transition = "rat \<times> int"
type_synonym run = "int \<times> rat"
type_synonym position = "nat \<times> nat"

text \<open>
  The exceptions of the source. Every error the source raises itself is a
  \<open>ValueError\<close> with a message; the others are raised by the Python runtime
  (\<open>times[0]\<close> on an empty list, a float division by zero, reading a local variable
  that was never bound).
\<close>

datatype error =
    ValueError string
  | IndexError
  | ZeroDivisionError
  | UnboundLocalError

section \<open>Python primitives\<close>

text \<open>\<open>str\<close> of a non-negative and of an arbitrary integer, in decimal.\<close>

definition digit_char :: "nat \<Rightarrow> char" where
  "digit_char d = ''0123456789'' ! d"

fun str_nat :: "nat \<Rightarrow> string" where
  "str_nat n = (if n < 10 then [digit_char n] else str_nat (n div 10) @ [digit_char (n mod 10)])"

declare str_nat.simps [simp del]

definition str_int :: "int \<Rightarrow> string" where
  "str_int i = (if i < 0 then CHR ''-'' # str_nat (nat (- i)) else str_nat (nat i))"

text \<open>
  \<open>min\<close> of a sequence: the first smallest element, \<open>ValueError\<close> on an empty
  sequence.
\<close>

fun min_loop :: "'a::linorder \<Rightarrow> 'a list \<Rightarrow> 'a" where
  "min_loop m [] = m"
| "min_loop m (x # xs) = min_loop (if x < m then x else m) xs"

fun py_min :: "'a::linorder list \<Rightarrow> error + 'a" where
  "py_min [] = Inl (ValueError ''min() arg is an empty sequence'')"
| "py_min (x # xs) = Inr (min_loop x xs)"

text \<open>\<open>round\<close> with one argument: to the nearest integer, ties to the even one.\<close>

definition py_round :: "rat \<Rightarrow> int" where
  "py_round x =
     (let f = \<lfloor>x\<rfloor>; d = x - of_int f
      in if d < 1 / 2 then f
         else if 1 / 2 < d then f + 1
         else if even f then f else f + 1)"

text \<open>The slice \<open>s[start:end]\<close> for indices that are not negative.\<close>

definition slice :: "'a list \<Rightarrow> nat \<Rightarrow> nat \<Rightarrow> 'a list" where
  "slice s start stop = take (stop - start) (drop start s)"

section \<open>\<open>read_trace\<close>: transitions and run lengths\<close>

text \<open>
  The transition loop: a sample is appended when its level differs from the level of
  the last transition appended so far.
\<close>

fun extract_transitions :: "sample list \<Rightarrow> transition list \<Rightarrow> transition list" where
  "extract_transitions [] transitions = transitions"
| "extract_transitions ((t, v) # rest) transitions =
     (if v \<noteq> snd (last transitions)
      then extract_transitions rest (transitions @ [(t, v)])
      else extract_transitions rest transitions)"

text \<open>
  The run loop, over \<open>range(len(transitions) - 1)\<close>, followed by the final run up to
  the last timestamp of the capture. \<open>transitions[-1]\<close> raises on an empty list.
\<close>

definition run_lengths :: "transition list \<Rightarrow> rat \<Rightarrow> error + run list" where
  "run_lengths transitions t_end =
     (if transitions = [] then Inl IndexError
      else Inr (map (\<lambda>i. (snd (transitions ! i), fst (transitions ! (i + 1)) - fst (transitions ! i)))
                    [0 ..< length transitions - 1]
                @ [(snd (last transitions), t_end - fst (last transitions))]))"

definition read_trace :: "sample list \<Rightarrow> error + (run list \<times> rat list \<times> int list)" where
  "read_trace samples =
     (let times = map fst samples; levels = map snd samples
      in if samples = [] then Inl IndexError
         else
           let transitions = extract_transitions (zip (tl times) (tl levels)) [(hd times, hd levels)]
           in case run_lengths transitions (last times) of
                Inl e \<Rightarrow> Inl e
              | Inr runs \<Rightarrow> Inr (runs, times, levels))"

section \<open>\<open>build_bitvector\<close>: quantum, idle trim, expansion\<close>

definition low_durations :: "run list \<Rightarrow> rat list" where
  "low_durations runs = map snd (filter (\<lambda>(val, dur). val = 0) runs)"

definition estimate_T0 :: "run list \<Rightarrow> error + rat" where
  "estimate_T0 runs =
     (if low_durations runs \<noteq> [] then py_min (low_durations runs) else py_min (map snd runs))"

text \<open>
  The trim loop: at the first run that lasts at least twenty quanta the list becomes
  what follows that run and the loop breaks; \<open>None\<close> when no run does.
\<close>

fun trim_loop :: "rat \<Rightarrow> run list \<Rightarrow> run list option" where
  "trim_loop T0 [] = None"
| "trim_loop T0 ((val, dur) # rest) = (if dur \<ge> 20 * T0 then Some rest else trim_loop T0 rest)"

definition trim :: "rat \<Rightarrow> run list \<Rightarrow> run list" where
  "trim T0 runs = (case trim_loop T0 runs of Some rest \<Rightarrow> rest | None \<Rightarrow> runs)"

text \<open>
  The expansion loop: \<open>bitvec.extend([val] * n)\<close> with \<open>n = round(dur / T0)\<close>. A list
  times a number that is not positive is empty. The float division raises on a zero
  quantum.
\<close>

fun expand :: "rat \<Rightarrow> run list \<Rightarrow> int list \<Rightarrow> error + int list" where
  "expand T0 [] bitvec = Inr bitvec"
| "expand T0 ((val, dur) # rest) bitvec =
     (if T0 = 0 then Inl ZeroDivisionError
      else expand T0 rest (bitvec @ replicate (nat (py_round (dur / T0))) val))"

definition build_bitvector :: "run list \<Rightarrow> error + (string \<times> rat)" where
  "build_bitvector runs =
     (case estimate_T0 runs of
        Inl e \<Rightarrow> Inl e
      | Inr T0 \<Rightarrow>
          (case expand T0 (trim T0 runs) [] of
             Inl e \<Rightarrow> Inl e
           | Inr bitvec \<Rightarrow> Inr (concat (map str_int bitvec), T0)))"

section \<open>\<open>extract_and_verify\<close>: frames between idle runs\<close>

text \<open>
  The scan is three nested \<open>while\<close> loops over one index. The innermost loop runs over
  consecutive \<open>'1'\<close>s and returns the index after them.
\<close>

function skip_ones :: "string \<Rightarrow> nat \<Rightarrow> nat" where
  "skip_ones bitvec i =
     (if i < length bitvec \<and> bitvec ! i = CHR ''1'' then skip_ones bitvec (Suc i) else i)"
  by pat_completeness auto
termination
  by (relation "measure (\<lambda>(bitvec, i). length bitvec - i)") auto

declare skip_ones.simps [simp del]

lemma skip_ones_ge: "i \<le> skip_ones bitvec i"
proof (induction bitvec i rule: skip_ones.induct)
  case (1 bitvec i)
  show ?case
  proof (cases "i < length bitvec \<and> bitvec ! i = CHR ''1''")
    case True
    then have "Suc i \<le> skip_ones bitvec (Suc i)" using "1" by simp
    then show ?thesis using True by (subst skip_ones.simps) simp
  next
    case False
    then show ?thesis by (subst skip_ones.simps) auto
  qed
qed

lemma skip_ones_gt:
  "i < length bitvec \<Longrightarrow> bitvec ! i = CHR ''1'' \<Longrightarrow> i < skip_ones bitvec i"
  using skip_ones_ge [of "Suc i" bitvec] by (subst skip_ones.simps) simp

lemma skip_ones_le: "i \<le> length bitvec \<Longrightarrow> skip_ones bitvec i \<le> length bitvec"
proof (induction bitvec i rule: skip_ones.induct)
  case (1 bitvec i)
  show ?case
  proof (cases "i < length bitvec \<and> bitvec ! i = CHR ''1''")
    case True
    then have "skip_ones bitvec (Suc i) \<le> length bitvec" using "1" by simp
    then show ?thesis using True by (subst skip_ones.simps) simp
  next
    case False
    then show ?thesis using "1.prems" by (subst skip_ones.simps) auto
  qed
qed

text \<open>
  The middle loop runs while a frame is open. It returns the index at which it stops and,
  when it stopped at the \<open>break\<close>, the frame and its position; it stops without a frame
  when the index reaches the end of the bitvector.
\<close>

function frame_open ::
  "string \<Rightarrow> int \<Rightarrow> nat \<Rightarrow> nat \<Rightarrow> nat \<times> (string \<times> position) option" where
  "frame_open bitvec min_idle start i =
     (if i < length bitvec then
        if bitvec ! i = CHR ''1'' then
          let run_start = i; i' = skip_ones bitvec i; run_len = i' - run_start
          in if int run_len \<ge> min_idle
             then (i', Some (slice bitvec start run_start, (start, run_start)))
             else frame_open bitvec min_idle start i'
        else frame_open bitvec min_idle start (Suc i)
      else (i, None))"
  by pat_completeness auto
termination
proof (relation "measure (\<lambda>(bitvec, min_idle, start, i). length bitvec - i)", goal_cases)
  case 1
  show ?case by simp
next
  case (2 bitvec min_idle start i run_start i' run_len)
  then show ?case
    using skip_ones_gt [of i bitvec] skip_ones_le [of i bitvec] by auto
next
  case (3 bitvec min_idle start i)
  then show ?case by auto
qed

declare frame_open.simps [simp del]

lemma frame_open_ge: "i \<le> fst (frame_open bitvec min_idle start i)"
proof (induction bitvec min_idle start i rule: frame_open.induct)
  case (1 bitvec min_idle start i)
  show ?case
  proof (cases "i < length bitvec")
    case False
    then show ?thesis by (subst frame_open.simps) simp
  next
    case True
    show ?thesis
    proof (cases "bitvec ! i = CHR ''1''")
      case False
      then have "Suc i \<le> fst (frame_open bitvec min_idle start (Suc i))"
        using "1.IH"(2) True by simp
      then show ?thesis using True False by (subst frame_open.simps) simp
    next
      case one: True
      show ?thesis
      proof (cases "int (skip_ones bitvec i - i) \<ge> min_idle")
        case True
        then show ?thesis
          using \<open>i < length bitvec\<close> one skip_ones_ge [of i bitvec]
          by (subst frame_open.simps) (simp add: Let_def)
      next
        case False
        then have "skip_ones bitvec i \<le> fst (frame_open bitvec min_idle start (skip_ones bitvec i))"
          using "1.IH"(1) [OF \<open>i < length bitvec\<close> one refl refl refl] by simp
        then show ?thesis
          using \<open>i < length bitvec\<close> one False skip_ones_ge [of i bitvec]
          by (subst frame_open.simps) (simp add: Let_def)
      qed
    qed
  qed
qed

lemma frame_open_gt:
  assumes "i < length bitvec" and "bitvec ! i \<noteq> CHR ''1''"
  shows "i < fst (frame_open bitvec min_idle start i)"
  using assms frame_open_ge [of "Suc i" bitvec min_idle start]
  by (subst frame_open.simps) simp

lemma frame_open_le:
  "i \<le> length bitvec \<Longrightarrow> fst (frame_open bitvec min_idle start i) \<le> length bitvec"
proof (induction bitvec min_idle start i rule: frame_open.induct)
  case (1 bitvec min_idle start i)
  show ?case
  proof (cases "i < length bitvec")
    case False
    then show ?thesis using "1.prems" by (subst frame_open.simps) simp
  next
    case True
    show ?thesis
    proof (cases "bitvec ! i = CHR ''1''")
      case False
      then have "fst (frame_open bitvec min_idle start (Suc i)) \<le> length bitvec"
        using "1.IH"(2) True by simp
      then show ?thesis using True False by (subst frame_open.simps) simp
    next
      case one: True
      have le: "skip_ones bitvec i \<le> length bitvec"
        using skip_ones_le "1.prems" by simp
      show ?thesis
      proof (cases "int (skip_ones bitvec i - i) \<ge> min_idle")
        case True
        then show ?thesis
          using \<open>i < length bitvec\<close> one le
          by (subst frame_open.simps) (simp add: Let_def)
      next
        case False
        then have "fst (frame_open bitvec min_idle start (skip_ones bitvec i)) \<le> length bitvec"
          using "1.IH"(1) [OF \<open>i < length bitvec\<close> one refl refl refl] le by simp
        then show ?thesis
          using \<open>i < length bitvec\<close> one False
          by (subst frame_open.simps) (simp add: Let_def)
      qed
    qed
  qed
qed

text \<open>
  The outer loop looks for a \<open>'0'\<close>, which opens a frame, and collects the frames and
  their positions in the order found.
\<close>

function scan ::
  "string \<Rightarrow> int \<Rightarrow> nat \<Rightarrow> (string \<times> position) list \<Rightarrow> (string \<times> position) list" where
  "scan bitvec min_idle i found =
     (if i < length bitvec then
        if bitvec ! i = CHR ''0'' then
          (case frame_open bitvec min_idle i i of
             (i', Some fp) \<Rightarrow> scan bitvec min_idle i' (found @ [fp])
           | (i', None) \<Rightarrow> scan bitvec min_idle i' found)
        else scan bitvec min_idle (Suc i) found
      else found)"
  by pat_completeness auto
termination
proof (relation "measure (\<lambda>(bitvec, min_idle, i, found). length bitvec - i)", goal_cases)
  case 1
  show ?case by simp
next
  case (2 bitvec min_idle i x i' y)
  then have "i' = fst (frame_open bitvec min_idle i i)" by (metis fst_conv)
  then show ?case
    using 2 frame_open_gt [of i bitvec min_idle i] frame_open_le [of i bitvec min_idle i] by auto
next
  case (3 bitvec min_idle i x i' y fp)
  then have "i' = fst (frame_open bitvec min_idle i i)" by (metis fst_conv)
  then show ?case
    using 3 frame_open_gt [of i bitvec min_idle i] frame_open_le [of i bitvec min_idle i] by auto
next
  case (4 bitvec min_idle i)
  then show ?case by auto
qed

declare scan.simps [simp del]

text \<open>
  What the functions print is part of their result: one string for each call of
  \<open>print\<close>, in order. The verification loop counts the frames that differ from the first
  one and prints a line for each.
\<close>

fun verify_loop :: "string \<Rightarrow> nat \<Rightarrow> string list \<Rightarrow> string list \<times> nat \<Rightarrow> string list \<times> nat" where
  "verify_loop first idx [] (printed, errors) = (printed, errors)"
| "verify_loop first idx (f # fs) (printed, errors) =
     (if f \<noteq> first
      then verify_loop first (Suc idx) fs
             (printed @ [''Frame '' @ str_nat idx @ '' differs''], errors + 1)
      else verify_loop first (Suc idx) fs (printed, errors))"

definition debug_print_frame_and_bitvec :: "string \<Rightarrow> string \<Rightarrow> position list \<Rightarrow> string list" where
  "debug_print_frame_and_bitvec frame bitvec positions =
     (let frame_len = length frame
      in [CHR 0x0A # ''=== Extracted Frame ==='',
          frame,
          ''======================='' @ [CHR 0x0A],
          ''=== Bitvector with frames aligned ===''] @
         map (\<lambda>(start, _).
                let line = slice bitvec start (start + frame_len);
                    marker = (if line = frame then ''OK'' else ''DIFF'')
                in line @ ''   '' @ marker) positions @
         [''======================='' @ [CHR 0x0A]])"

definition extract_and_verify ::
  "string \<Rightarrow> int \<Rightarrow> string list \<times> (error + string \<times> nat \<times> position list)" where
  "extract_and_verify bitvec min_idle =
     (let found = scan bitvec min_idle 0 [];
          frames = map fst found;
          positions = map snd found
      in if frames = [] then ([], Inl (ValueError ''No frames found''))
         else
           let first = hd frames;
               (printed, errors) =
                  verify_loop first 1 (tl frames) ([''Frames found: '' @ str_nat (length frames)], 0)
           in if errors > 0
              then (printed @ debug_print_frame_and_bitvec first bitvec positions,
                    Inl (ValueError (str_nat errors @ '' frames differ, unreliable capture'')))
              else (printed, Inr (first, length frames - errors, positions)))"

section \<open>\<open>main\<close>: the loop over the traces\<close>

text \<open>The length check that follows the extraction inside the \<open>try\<close> block.\<close>

definition check_length :: "string \<Rightarrow> error + unit" where
  "check_length frame =
     (if 30 > length frame \<or> length frame > 34
      then Inl (ValueError (''Frame too '' @ (if length frame < 3 then ''short'' else ''long'') @
                  '' ('' @ str_nat (length frame) @ '' bits), unreliable capture''))
      else Inr ())"

text \<open>\<open>name.rsplit('.', 1)[0]\<close>: the name up to its last dot, or all of it.\<close>

definition rsplit_dot_head :: "string \<Rightarrow> string" where
  "rsplit_dot_head name =
     (if CHR ''.'' \<in> set name then rev (tl (dropWhile (\<lambda>c. c \<noteq> CHR ''.'') (rev name))) else name)"

text \<open>
  The state of \<open>main\<close>: the local variable \<open>frame\<close>, which is unbound until the first
  extraction returns, the list \<open>trace_errors\<close>, the files written and the strings
  printed. A trace is given by its name and the rows of its file. The command line is the
  default one: no \<open>--debug\<close> and no \<open>--outdir\<close>.
\<close>

record main_state =
  frame_var :: "string option"
  trace_errors :: "(string \<times> string \<times> string) list"
  written :: "(string \<times> string) list"
  printed_lines :: "string list"

text \<open>
  The handler \<open>except ValueError as e\<close>: it prints, then reads \<open>frame\<close> to record the
  failure.
\<close>

definition except_handler :: "main_state \<Rightarrow> string \<Rightarrow> string \<Rightarrow> error + main_state" where
  "except_handler st trace msg =
     (let st1 = st\<lparr>printed_lines := printed_lines st @ [''Error processing '' @ trace @ '': '' @ msg]\<rparr>
      in case frame_var st1 of
           None \<Rightarrow> Inl UnboundLocalError
         | Some frame \<Rightarrow> Inr (st1\<lparr>trace_errors := trace_errors st1 @ [(trace, frame, msg)]\<rparr>))"

fun process_trace :: "main_state \<Rightarrow> string \<times> sample list \<Rightarrow> error + main_state" where
  "process_trace st (trace, samples) =
     (let st0 = st\<lparr>printed_lines := printed_lines st @ [CHR 0x0A # ''Processing '' @ trace @ ''...'']\<rparr>
      in case read_trace samples of
           Inl e \<Rightarrow> Inl e
         | Inr (runs, _, _) \<Rightarrow>
        (case build_bitvector runs of
           Inl e \<Rightarrow> Inl e
         | Inr (whole_bitvector, T0) \<Rightarrow>
        (case extract_and_verify whole_bitvector 20 of
           (printed, Inl (ValueError msg)) \<Rightarrow>
             except_handler (st0\<lparr>printed_lines := printed_lines st0 @ printed\<rparr>) trace msg
         | (printed, Inl e) \<Rightarrow> Inl e
         | (printed, Inr (frame, count, positions)) \<Rightarrow>
             let st1 = st0\<lparr>printed_lines := printed_lines st0 @ printed, frame_var := Some frame\<rparr>
             in (case check_length frame of
                   Inl (ValueError msg) \<Rightarrow> except_handler st1 trace msg
                 | Inl e \<Rightarrow> Inl e
                 | Inr _ \<Rightarrow>
                     let st2 = st1\<lparr>printed_lines := printed_lines st1 @
                                 [''Frame (length '' @ str_nat (length frame) @ ''): '' @ frame @
                                  '' found '' @ str_nat count @ '' times'']\<rparr>
                     in Inr (if count \<ge> 5
                             then st2\<lparr>written := written st2 @
                                    [(rsplit_dot_head trace @ ''.frame'', frame @ [CHR 0x0A])]\<rparr>
                             else st2)))))"

fun main_loop :: "main_state \<Rightarrow> (string \<times> sample list) list \<Rightarrow> error + main_state" where
  "main_loop st [] = Inr st"
| "main_loop st (trace # rest) =
     (case process_trace st trace of Inl e \<Rightarrow> Inl e | Inr st' \<Rightarrow> main_loop st' rest)"

definition main :: "(string \<times> sample list) list \<Rightarrow> error + main_state" where
  "main traces =
     (case main_loop \<lparr>frame_var = None, trace_errors = [], written = [], printed_lines = []\<rparr> traces of
        Inl e \<Rightarrow> Inl e
      | Inr st \<Rightarrow>
          Inr (if trace_errors st \<noteq> []
               then st\<lparr>printed_lines := printed_lines st @
                      (CHR 0x0A # ''==== Errors ===='') #
                      map (\<lambda>(trace, frame, err). trace @ '': '' @ err @ '' '' @ [CHR 0x09] @ '' Frame: '' @ frame)
                          (trace_errors st)\<rparr>
               else st))"

section \<open>Notions used in the statements\<close>


text \<open>
  The run list of the concrete scenario, with durations in seconds: a low run of 1 ms, a
  high run of 0.5 ms, a low run of 1 ms and a high run of 25 ms, six times; and the
  bitvector built from it.
\<close>

definition scenario_runs :: "run list" where
  "scenario_runs = concat (replicate 6 [(0, 1 / 1000), (1, 1 / 2000), (0, 1 / 1000), (1, 25 / 1000)])"

definition scenario_bitvector :: string where
  "scenario_bitvector = concat (replicate 5 (''00'' @ replicate 25 CHR ''1''))"

text \<open>
  Between \<open>a\<close> and \<open>b\<close> every window of \<open>m\<close> consecutive digits holds a digit other
  than \<open>'1'\<close>; and what the scan establishes for a frame it records.
\<close>

definition no_idle_window :: "string \<Rightarrow> nat \<Rightarrow> nat \<Rightarrow> nat \<Rightarrow> bool" where
  "no_idle_window bitvec m a b \<longleftrightarrow>
     (\<forall>k. a \<le> k \<and> k + m \<le> b \<longrightarrow> (\<exists>l. k \<le> l \<and> l < k + m \<and> bitvec ! l \<noteq> CHR ''1''))"

definition well_delimited :: "string \<Rightarrow> nat \<Rightarrow> string \<times> position \<Rightarrow> bool" where
  "well_delimited bitvec m fp \<longleftrightarrow>
     (case fp of (f, (s, e)) \<Rightarrow>
        s < e \<and> e + m \<le> length bitvec \<and> f = slice bitvec s e \<and>
        bitvec ! s = CHR ''0'' \<and> bitvec ! (e - 1) \<noteq> CHR ''1'' \<and>
        no_idle_window bitvec m s e \<and>
        (\<forall>k. e \<le> k \<and> k < e + m \<longrightarrow> bitvec ! k = CHR ''1''))"

section \<open>Transitions and runs\<close>

lemma upt_Suc_shift: "[0 ..< Suc n] = 0 # map Suc [0 ..< n]"
  by (simp only: upt_conv_Cons [of 0 "Suc n"] map_Suc_upt zero_less_Suc if_True)

lemma run_lengths_Cons2:
  "run_lengths (x # y # ys) t_end =
     (case run_lengths (y # ys) t_end of Inl e \<Rightarrow> Inl e
      | Inr runs \<Rightarrow> Inr ((snd x, fst y - fst x) # runs))"
proof -
  have "map (\<lambda>i. (snd ((x # y # ys) ! i), fst ((x # y # ys) ! (i + 1)) - fst ((x # y # ys) ! i)))
            [0 ..< Suc (length ys)]
        = (snd x, fst y - fst x) #
          map (\<lambda>i. (snd ((y # ys) ! i), fst ((y # ys) ! (i + 1)) - fst ((y # ys) ! i)))
            [0 ..< length ys]"
    by (simp only: upt_Suc_shift list.map map_map comp_def nth_Cons_0 nth_Cons_Suc Suc_eq_plus1 [symmetric])
  then show ?thesis
    by (simp add: run_lengths_def del: upt_Suc)
qed

lemma run_lengths_single: "run_lengths [x] t_end = Inr [(snd x, t_end - fst x)]"
  by (simp add: run_lengths_def)

lemma run_lengths_props:
  "transitions \<noteq> [] \<Longrightarrow>
   \<exists>runs. run_lengths transitions t_end = Inr runs \<and>
          sum_list (map snd runs) = t_end - fst (hd transitions) \<and>
          map fst runs = map snd transitions"
proof (induction transitions)
  case Nil
  then show ?case by simp
next
  case (Cons x xs)
  show ?case
  proof (cases xs)
    case Nil
    then show ?thesis by (simp add: run_lengths_single)
  next
    case c: (Cons y ys)
    then obtain runs where r: "run_lengths (y # ys) t_end = Inr runs"
      "sum_list (map snd runs) = t_end - fst y" "map fst runs = map snd (y # ys)"
      using Cons.IH by auto
    show ?thesis
      unfolding c run_lengths_Cons2 r(1) using r(2,3) by simp
  qed
qed



lemma extract_transitions_nonempty: "acc \<noteq> [] \<Longrightarrow> extract_transitions rest acc \<noteq> []"
  by (induction rest acc rule: extract_transitions.induct) auto

lemma extract_transitions_hd: "acc \<noteq> [] \<Longrightarrow> hd (extract_transitions rest acc) = hd acc"
  by (induction rest acc rule: extract_transitions.induct) auto

lemma extract_transitions_alternate:
  "acc \<noteq> [] \<Longrightarrow> distinct_adj (map snd acc) \<Longrightarrow>
   distinct_adj (map snd (extract_transitions rest acc))"
proof (induction rest acc rule: extract_transitions.induct)
  case (1 transitions)
  then show ?case by simp
next
  case (2 t v rest transitions)
  show ?case
  proof (cases "v \<noteq> snd (last transitions)")
    case True
    have "distinct_adj (map snd (transitions @ [(t, v)]))"
      using "2.prems" True by (simp add: distinct_adj_append_iff last_map)
    then show ?thesis using "2.IH"(1) True by simp
  next
    case False
    then show ?thesis using "2.IH"(2) "2.prems" by simp
  qed
qed

lemma read_trace_unfold:
  assumes "samples \<noteq> []"
  shows "read_trace samples =
          (case run_lengths (extract_transitions (tl samples) [hd samples]) (fst (last samples)) of
             Inl e \<Rightarrow> Inl e
           | Inr runs \<Rightarrow> Inr (runs, map fst samples, map snd samples))"
proof -
  have z: "zip (tl (map fst samples)) (tl (map snd samples)) = tl samples"
    by (cases samples) (simp_all add: zip_map_fst_snd)
  have h: "(hd (map fst samples), hd (map snd samples)) = hd samples"
    using assms by (cases samples) simp_all
  have l: "last (map fst samples) = fst (last samples)"
    using assms by (simp add: last_map)
  show ?thesis
    unfolding read_trace_def Let_def z h l using assms by (simp only: if_False)
qed

lemma read_trace_returns:
  assumes "samples \<noteq> []"
  shows "\<exists>runs. read_trace samples = Inr (runs, map fst samples, map snd samples) \<and>
           map fst runs = map snd (extract_transitions (tl samples) [hd samples]) \<and>
           sum_list (map snd runs) = fst (last samples) - fst (hd samples)"
proof -
  let ?trs = "extract_transitions (tl samples) [hd samples]"
  have ne: "?trs \<noteq> []" by (rule extract_transitions_nonempty) simp
  obtain runs where r: "run_lengths ?trs (fst (last samples)) = Inr runs"
    "sum_list (map snd runs) = fst (last samples) - fst (hd ?trs)"
    "map fst runs = map snd ?trs"
    using run_lengths_props [OF ne] by blast
  have "read_trace samples = Inr (runs, map fst samples, map snd samples)"
    unfolding read_trace_unfold [OF assms] r(1) by simp
  moreover have "hd ?trs = hd samples"
    using extract_transitions_hd [of "[hd samples]" "tl samples"] by simp
  ultimately show ?thesis using r(2,3) by simp
qed

text \<open>
  C9. For every sample sequence that is not empty, the levels of the runs alternate: no
  two adjacent runs have the same level. The levels of the runs are the levels of the
  transition list, whose loop appends a sample only when its level differs from the level
  of the last transition appended.
\<close>

theorem read_trace_runs_alternate:
  assumes "samples \<noteq> []"
  shows "case read_trace samples of
           Inl e \<Rightarrow> False
         | Inr (runs, _, _) \<Rightarrow>
             distinct_adj (map fst runs) \<and>
             map fst runs = map snd (extract_transitions (tl samples) [hd samples])"
proof -
  obtain runs where r: "read_trace samples = Inr (runs, map fst samples, map snd samples)"
    "map fst runs = map snd (extract_transitions (tl samples) [hd samples])"
    using read_trace_returns [OF assms] by blast
  have "distinct_adj (map snd (extract_transitions (tl samples) [hd samples]))"
    by (rule extract_transitions_alternate) simp_all
  then show ?thesis unfolding r(1) using r(2) by simp
qed

theorem read_trace_runs_alternate_witness:
  "read_trace [(0, 1), (1, 1), (2, 0), (3, 0), (4, 0), (5, 1), (9, 1)] =
     Inr ([(1, 2), (0, 3), (1, 4)], [0, 1, 2, 3, 4, 5, 9], [1, 1, 0, 0, 0, 1, 1]) \<and>
   distinct_adj (map fst [(1 :: int, 2 :: rat), (0, 3), (1, 4)])"
proof -
  have a: "[(0 :: rat, 1 :: int), (1, 1), (2, 0), (3, 0), (4, 0), (5, 1), (9, 1)] \<noteq> []" by simp
  have e: "read_trace [(0, 1), (1, 1), (2, 0), (3, 0), (4, 0), (5, 1), (9, 1)] =
     Inr ([(1, 2), (0, 3), (1, 4)], [0, 1, 2, 3, 4, 5, 9], [1, 1, 0, 0, 0, 1, 1])"
    by (simp add: read_trace_unfold run_lengths_Cons2 run_lengths_single)
  have d: "distinct_adj (map fst [(1 :: int, 2 :: rat), (0, 3), (1, 4)])"
    using read_trace_runs_alternate [OF a] unfolding e by simp
  show ?thesis by (rule conjI [OF e d])
qed

section \<open>The quantum\<close>

lemma min_loop_Min: "min_loop m xs = Min (insert m (set xs))"
proof (induction xs arbitrary: m)
  case Nil
  show ?case by simp
next
  case (Cons x xs)
  have step: "(if x < m then x else m) = min x m"
    by (auto simp: min_def)
  have "min_loop m (x # xs) = Min (insert (min x m) (set xs))"
    using Cons [of "min x m"] by (simp only: min_loop.simps step)
  also have "\<dots> = Min (insert m (set (x # xs)))"
  proof (cases "set xs = {}")
    case True
    then show ?thesis by (simp add: min.commute)
  next
    case False
    have "Min (insert (min x m) (set xs)) = min (min x m) (Min (set xs))"
      using False by simp
    moreover have "Min (insert m (insert x (set xs))) = min m (min x (Min (set xs)))"
      using False by simp
    ultimately show ?thesis
      by (simp add: min.assoc min.commute [of x m])
  qed
  finally show ?case .
qed

lemma py_min_Min: "xs \<noteq> [] \<Longrightarrow> py_min xs = Inr (Min (set xs))"
  by (cases xs) (simp_all only: py_min.simps min_loop_Min list.set)

lemma set_low_durations: "set (low_durations runs) = snd ` {r \<in> set runs. fst r = 0}"
  by (induction runs) (auto simp: low_durations_def)

lemma low_durations_empty: "low_durations runs = [] \<longleftrightarrow> \<not> (\<exists>r \<in> set runs. fst r = 0)"
  by (induction runs) (auto simp: low_durations_def)

text \<open>
  C6. For a run list that is not empty, the estimated quantum is the minimum duration
  among the runs of level 0 and, when there is no run of level 0, the minimum duration
  among all runs.
\<close>

theorem estimate_T0_minimum:
  assumes "runs \<noteq> []"
  shows "estimate_T0 runs =
           Inr (if \<exists>r \<in> set runs. fst r = 0
                then Min (snd ` {r \<in> set runs. fst r = 0})
                else Min (snd ` set runs))"
proof (cases "low_durations runs = []")
  case True
  then have no: "\<not> (\<exists>r \<in> set runs. fst r = 0)"
    using low_durations_empty [of runs] by blast
  have "map snd runs \<noteq> []" using assms by simp
  then have "py_min (map snd runs) = Inr (Min (snd ` set runs))"
    using py_min_Min [of "map snd runs"] by simp
  then show ?thesis
    unfolding estimate_T0_def using True no by simp
next
  case False
  then have yes: "\<exists>r \<in> set runs. fst r = 0"
    using low_durations_empty [of runs] by blast
  have "py_min (low_durations runs) = Inr (Min (snd ` {r \<in> set runs. fst r = 0}))"
    using False py_min_Min [of "low_durations runs"] by (simp add: set_low_durations)
  then show ?thesis
    unfolding estimate_T0_def using False yes by simp
qed

theorem estimate_T0_minimum_witness:
  "[(0, 3), (1, 1), (0, 2 :: rat)] \<noteq> ([] :: run list) \<and>
   estimate_T0 [(0, 3), (1, 1), (0, 2)] = Inr 2 \<and>
   Min (snd ` {r \<in> set [(0, 3), (1, 1), (0, 2 :: rat)]. fst r = (0 :: int)}) = 2"
proof -
  have a: "[(0, 3), (1, 1), (0, 2 :: rat)] \<noteq> ([] :: run list)" by simp
  have b: "\<exists>r \<in> set [(0 :: int, 3 :: rat), (1, 1), (0, 2)]. fst r = 0" by simp
  have c: "estimate_T0 [(0, 3), (1, 1), (0, 2)] = Inr 2"
    by (simp add: estimate_T0_def low_durations_def)
  have d: "estimate_T0 [(0, 3), (1, 1), (0, 2)] =
             Inr (Min (snd ` {r \<in> set [(0, 3), (1, 1), (0, 2 :: rat)]. fst r = (0 :: int)}))"
    using estimate_T0_minimum [OF a] unfolding if_P [OF b] .
  have "Inr 2 = (Inr (Min (snd ` {r \<in> set [(0, 3), (1, 1), (0, 2 :: rat)]. fst r = (0 :: int)})) :: error + rat)"
    by (rule trans [OF c [symmetric] d])
  then have "2 = Min (snd ` {r \<in> set [(0, 3), (1, 1), (0, 2 :: rat)]. fst r = (0 :: int)})"
    by (rule Inr_inject)
  then have e: "Min (snd ` {r \<in> set [(0, 3), (1, 1), (0, 2 :: rat)]. fst r = (0 :: int)}) = 2"
    by (rule sym)
  show ?thesis by (rule conjI [OF a conjI [OF c e]])
qed

section \<open>The length check\<close>

text \<open>
  C3. A frame whose length lies in [30, 34] passes the length check. For a frame whose
  length lies outside, the check raises an error whose message says "too short" exactly
  when the length is below 3 and "too long" otherwise.
\<close>

theorem check_length_classification:
  "(30 \<le> length frame \<and> length frame \<le> 34 \<longrightarrow> check_length frame = Inr ()) \<and>
   (\<not> (30 \<le> length frame \<and> length frame \<le> 34) \<longrightarrow>
      (\<exists>msg. check_length frame = Inl (ValueError msg) \<and>
             (prefix ''Frame too short'' msg \<longleftrightarrow> length frame < 3) \<and>
             (prefix ''Frame too long'' msg \<longleftrightarrow> \<not> length frame < 3)))"
  by (auto simp: check_length_def)

theorem check_length_classification_witness:
  "(\<exists>msg. check_length ''00'' = Inl (ValueError msg) \<and> prefix ''Frame too short'' msg) \<and>
   (\<exists>msg. check_length ''0000'' = Inl (ValueError msg) \<and> prefix ''Frame too long'' msg) \<and>
   check_length (replicate 30 CHR ''0'') = Inr ()"
  using check_length_classification [of "''00''"] check_length_classification [of "''0000''"]
    check_length_classification [of "replicate 30 CHR ''0''"]
  by auto

section \<open>The bitvector\<close>





lemma expand_returns: "T0 \<noteq> 0 \<Longrightarrow> \<exists>result. expand T0 runs bitvec = Inr result"
  by (induction runs arbitrary: bitvec) auto





lemma min_loop_mem: "min_loop m xs \<in> insert m (set xs)"
  by (induction xs arbitrary: m) (auto split: if_splits)

lemma py_min_mem: "py_min xs = Inr m \<Longrightarrow> m \<in> set xs"
  using min_loop_mem by (cases xs) auto

lemma estimate_T0_mem: "estimate_T0 runs = Inr T0 \<Longrightarrow> T0 \<in> snd ` set runs"
proof -
  assume a: "estimate_T0 runs = Inr T0"
  have "set (low_durations runs) \<subseteq> snd ` set runs"
    by (auto simp: low_durations_def)
  then show ?thesis
    using a py_min_mem [of "low_durations runs" T0] py_min_mem [of "map snd runs" T0]
    by (auto simp: estimate_T0_def split: if_splits)
qed




lemma build_bitvector_returns:
  assumes "runs \<noteq> []" and "\<forall>r \<in> set runs. 0 < snd r"
  shows "\<exists>bitvector T0. build_bitvector runs = Inr (bitvector, T0) \<and> 0 < T0"
proof -
  obtain T0 where e: "estimate_T0 runs = Inr T0"
    using estimate_T0_minimum [OF assms(1)] by blast
  have "0 < T0" using estimate_T0_mem [OF e] assms(2) by auto
  then obtain bitvec where "expand T0 (trim T0 runs) [] = Inr bitvec"
    using expand_returns [of T0] by (metis less_irrefl)
  then show ?thesis using e \<open>0 < T0\<close> by (simp add: build_bitvector_def)
qed

section \<open>The concrete scenario\<close>

text \<open>
  On the scenario the pipeline does not estimate a quantum of 0.5 ms and then find six
  frames of four bits.
\<close>

theorem scenario_counterexample:
  "\<not> (case build_bitvector scenario_runs of
        Inl e \<Rightarrow> False
      | Inr (bitvector, T0) \<Rightarrow>
          T0 = 1 / 2000 \<and>
          (case extract_and_verify bitvector 20 of
             (printed, Inl e) \<Rightarrow> False
           | (printed, Inr (frame, count, positions)) \<Rightarrow> count = 6 \<and> length frame = 4))"
  by code_simp

text \<open>
  C2 (amended). On the scenario the quantum is 1 ms, the shortest low run; the idle trim
  drops the first four runs; the bitvector is five times \<open>00\<close> followed by 25 ones; the
  extraction finds five equal frames \<open>00\<close>, so the count is 5 and the frame has 2 bits;
  the length check fails with the message that says "too short", since 2 is below 3.
\<close>

theorem scenario_decodes:
  "build_bitvector scenario_runs = Inr (scenario_bitvector, 1 / 1000) \<and>
   trim (1 / 1000) scenario_runs = drop 4 scenario_runs \<and>
   extract_and_verify scenario_bitvector 20 =
     ([''Frames found: 5''], Inr (''00'', 5, [(0, 2), (27, 29), (54, 56), (81, 83), (108, 110)])) \<and>
   check_length ''00'' = Inl (ValueError ''Frame too short (2 bits), unreliable capture'')"
  by code_simp

section \<open>Errors in the loop over the traces\<close>

text \<open>
  C5. A trace without frames makes \<open>extract_and_verify\<close> raise before \<open>frame\<close> is
  bound. When it is the first trace, the handler fails on reading \<open>frame\<close>, and the
  run ends with \<open>UnboundLocalError\<close>: the error is not recorded, and the traces that
  follow are not processed.
\<close>

theorem main_aborts_on_first_trace_without_frames:
  "build_bitvector [(1, 1)] = Inr (''1'', 1) \<and>
   extract_and_verify ''1'' 20 = ([], Inl (ValueError ''No frames found'')) \<and>
   main [(''t.csv'', [(0, 1), (1, 1)])] = Inl UnboundLocalError \<and>
   main [(''t.csv'', [(0, 1), (1, 1)]), (''u.csv'', [(0, 1), (1, 1)])] = Inl UnboundLocalError"
  by code_simp

text \<open>
  After a trace that bound \<open>frame\<close>, the handler records that earlier frame for a
  trace that has none.
\<close>

lemma main_records_stale_frame:
  "map_sum id trace_errors
     (main [(''a.csv'', [(0, 1), (25, 0), (26, 1), (51, 1)]), (''b.csv'', [(0, 1), (1, 1)])]) =
   Inr [(''a.csv'', ''0'', ''Frame too short (1 bits), unreliable capture''),
        (''b.csv'', ''0'', ''No frames found'')]"
  by code_simp

section \<open>The frames found by the scan\<close>

lemma skip_ones_eq:
  assumes "i \<le> j" and "j \<le> length bitvec"
    and "\<forall>k. i \<le> k \<and> k < j \<longrightarrow> bitvec ! k = CHR ''1''"
    and "j < length bitvec \<longrightarrow> bitvec ! j \<noteq> CHR ''1''"
  shows "skip_ones bitvec i = j"
  using assms
proof (induction "j - i" arbitrary: i)
  case 0
  then have "i = j" by simp
  then show ?case using "0.prems" by (subst skip_ones.simps) auto
next
  case (Suc d)
  then have lt: "i < j" by simp
  then have one: "i < length bitvec \<and> bitvec ! i = CHR ''1''"
    using Suc.prems by auto
  have "skip_ones bitvec (Suc i) = j"
    using Suc.hyps Suc.prems lt by (intro Suc.hyps(1)) auto
  then show ?case using one by (subst skip_ones.simps) simp
qed

lemma skip_ones_ones: "i \<le> k \<Longrightarrow> k < skip_ones bitvec i \<Longrightarrow> bitvec ! k = CHR ''1''"
proof (induction bitvec i rule: skip_ones.induct)
  case (1 bitvec i)
  show ?case
  proof (cases "i < length bitvec \<and> bitvec ! i = CHR ''1''")
    case True
    then have s: "skip_ones bitvec i = skip_ones bitvec (Suc i)"
      by (subst skip_ones.simps) simp
    show ?thesis
    proof (cases "k = i")
      case True
      then show ?thesis using \<open>i < length bitvec \<and> bitvec ! i = CHR ''1''\<close> by simp
    next
      case False
      then show ?thesis using "1.IH" [OF True] "1.prems" s by simp
    qed
  next
    case False
    then have "skip_ones bitvec i = i" by (subst skip_ones.simps) auto
    then show ?thesis using "1.prems" by simp
  qed
qed

lemma skip_ones_stop:
  "skip_ones bitvec i < length bitvec \<Longrightarrow> bitvec ! (skip_ones bitvec i) \<noteq> CHR ''1''"
proof (induction bitvec i rule: skip_ones.induct)
  case (1 bitvec i)
  show ?case
  proof (cases "i < length bitvec \<and> bitvec ! i = CHR ''1''")
    case True
    then have s: "skip_ones bitvec i = skip_ones bitvec (Suc i)"
      by (subst skip_ones.simps) simp
    then show ?thesis using "1.IH" [OF True] "1.prems" by simp
  next
    case False
    then have "skip_ones bitvec i = i" by (subst skip_ones.simps) auto
    then show ?thesis using "1.prems" False by simp
  qed
qed

lemma frame_open_eq:
  assumes se: "start < e" and j: "e + M = j" and jn: "j \<le> length bitvec"
    and M: "min_idle \<le> int M" and mi: "1 \<le> min_idle"
    and ones: "\<forall>k. e \<le> k \<and> k < j \<longrightarrow> bitvec ! k = CHR ''1''"
    and stop: "j < length bitvec \<longrightarrow> bitvec ! j \<noteq> CHR ''1''"
    and lastc: "bitvec ! (e - 1) \<noteq> CHR ''1''"
    and nw: "no_idle_window bitvec (nat min_idle) start e"
  shows "start \<le> i \<Longrightarrow> i \<le> e \<Longrightarrow>
         frame_open bitvec min_idle start i = (j, Some (slice bitvec start e, (start, e)))"
proof (induction "e - i" arbitrary: i rule: less_induct)
  case less
  have Mpos: "0 < M" using M mi by simp
  show ?case
  proof (cases "i = e")
    case True
    have il: "i < length bitvec" using True j jn Mpos by simp
    have c1: "bitvec ! i = CHR ''1''" using ones True j Mpos by simp
    have sk: "skip_ones bitvec i = j"
      using skip_ones_eq [of i j bitvec] ones stop True j jn by simp
    have "min_idle \<le> int (j - i)" using M j True by simp
    then show ?thesis
      using il c1 sk True by (subst frame_open.simps) (simp add: Let_def)
  next
    case False
    then have ie: "i < e" using less.prems by simp
    then have il: "i < length bitvec" using j jn by simp
    show ?thesis
    proof (cases "bitvec ! i = CHR ''1''")
      case False
      have "frame_open bitvec min_idle start (Suc i) = (j, Some (slice bitvec start e, (start, e)))"
        using ie less.prems by (intro less.hyps) auto
      then show ?thesis using il False by (subst frame_open.simps) simp
    next
      case True
      let ?j = "skip_ones bitvec i"
      have gt: "i < ?j" using skip_ones_gt [OF il True] .
      have je: "?j < e"
      proof (rule ccontr)
        assume "\<not> ?j < e"
        then have "e - 1 < ?j" using se by simp
        moreover have "i \<le> e - 1" using ie by simp
        ultimately have "bitvec ! (e - 1) = CHR ''1''" by (rule skip_ones_ones [rotated])
        then show False using lastc by simp
      qed
      have short: "\<not> min_idle \<le> int (?j - i)"
      proof
        assume "min_idle \<le> int (?j - i)"
        then have "i + nat min_idle \<le> ?j" using gt by linarith
        then have w: "start \<le> i \<and> i + nat min_idle \<le> e" using less.prems je by simp
        then obtain l where l: "i \<le> l" "l < i + nat min_idle" "bitvec ! l \<noteq> CHR ''1''"
          using nw unfolding no_idle_window_def by blast
        have "l < ?j" using l(2) \<open>i + nat min_idle \<le> ?j\<close> by simp
        then have "bitvec ! l = CHR ''1''" using skip_ones_ones [OF l(1)] by simp
        then show False using l(3) by simp
      qed
      have "frame_open bitvec min_idle start ?j = (j, Some (slice bitvec start e, (start, e)))"
        using gt je less.prems by (intro less.hyps) auto
      then show ?thesis using il True short by (subst frame_open.simps) (simp add: Let_def)
    qed
  qed
qed

lemma no_idle_window_step:
  assumes "no_idle_window bitvec m start i" and "0 < m" and "bitvec ! i \<noteq> CHR ''1''"
  shows "no_idle_window bitvec m start (Suc i)"
  unfolding no_idle_window_def
proof (intro allI impI)
  fix k assume k: "start \<le> k \<and> k + m \<le> Suc i"
  show "\<exists>l\<ge>k. l < k + m \<and> bitvec ! l \<noteq> CHR ''1''"
  proof (cases "k + m \<le> i")
    case True
    then show ?thesis using assms(1) k unfolding no_idle_window_def by blast
  next
    case False
    then have "k \<le> i \<and> i < k + m" using k assms(2) by linarith
    then show ?thesis using assms(3) by blast
  qed
qed

lemma no_idle_window_run:
  assumes "no_idle_window bitvec m start i" and "i \<le> j" and "j - i < m"
    and "start < i" and "bitvec ! (i - 1) \<noteq> CHR ''1''"
  shows "no_idle_window bitvec m start j"
  unfolding no_idle_window_def
proof (intro allI impI)
  fix k assume k: "start \<le> k \<and> k + m \<le> j"
  show "\<exists>l\<ge>k. l < k + m \<and> bitvec ! l \<noteq> CHR ''1''"
  proof (cases "k + m \<le> i")
    case True
    then show ?thesis using assms(1) k unfolding no_idle_window_def by blast
  next
    case False
    then have "k \<le> i - 1 \<and> i - 1 < k + m" using k assms(2,3,4) by linarith
    then show ?thesis using assms(5) by blast
  qed
qed

lemma frame_open_props:
  assumes mi: "1 \<le> min_idle" and s0: "bitvec ! start = CHR ''0''"
  shows "frame_open bitvec min_idle start i = (j, Some fp) \<Longrightarrow> start \<le> i \<Longrightarrow>
         (i < length bitvec \<and> bitvec ! i = CHR ''1'' \<longrightarrow> start < i \<and> bitvec ! (i - 1) \<noteq> CHR ''1'') \<Longrightarrow>
         no_idle_window bitvec (nat min_idle) start i \<Longrightarrow>
         well_delimited bitvec (nat min_idle) fp"
proof (induction "length bitvec - i" arbitrary: i rule: less_induct)
  case less
  have mpos: "0 < nat min_idle" using mi by simp
  have il: "i < length bitvec"
  proof (rule ccontr)
    assume "\<not> i < length bitvec"
    then have "frame_open bitvec min_idle start i = (i, None)"
      by (subst frame_open.simps) simp
    then show False using less.prems(1) by simp
  qed
  show ?case
  proof (cases "bitvec ! i = CHR ''1''")
    case False
    have fo: "frame_open bitvec min_idle start (Suc i) = (j, Some fp)"
      using less.prems(1) il False by (subst (asm) frame_open.simps) simp
    have nw: "no_idle_window bitvec (nat min_idle) start (Suc i)"
      using no_idle_window_step [OF less.prems(4) mpos False] .
    show ?thesis
      using il less.prems(2) False
      by (intro less.hyps [OF _ fo _ _ nw]) auto
  next
    case True
    let ?j = "skip_ones bitvec i"
    have gt: "i < ?j" using skip_ones_gt [OF il True] .
    have le: "?j \<le> length bitvec" using skip_ones_le [of i bitvec] il by simp
    have b: "start < i" "bitvec ! (i - 1) \<noteq> CHR ''1''" using less.prems(3) il True by auto
    show ?thesis
    proof (cases "min_idle \<le> int (?j - i)")
      case long: True
      have "frame_open bitvec min_idle start i = (?j, Some (slice bitvec start i, (start, i)))"
        using il True long by (subst frame_open.simps) (simp add: Let_def)
      then have fp: "fp = (slice bitvec start i, (start, i))" using less.prems(1) by simp
      have ext: "i + nat min_idle \<le> ?j" using long gt by linarith
      have "\<forall>k. i \<le> k \<and> k < i + nat min_idle \<longrightarrow> bitvec ! k = CHR ''1''"
        using skip_ones_ones [of i _ bitvec] ext by auto
      then show ?thesis
        unfolding well_delimited_def fp using b s0 less.prems(4) ext le by simp
    next
      case short: False
      have fo: "frame_open bitvec min_idle start ?j = (j, Some fp)"
        using less.prems(1) il True short by (subst (asm) frame_open.simps) (simp add: Let_def)
      have "?j - i < nat min_idle" using short by linarith
      then have nw: "no_idle_window bitvec (nat min_idle) start ?j"
        using no_idle_window_run [OF less.prems(4) _ _ b] gt by simp
      have stop: "?j < length bitvec \<and> bitvec ! ?j = CHR ''1'' \<longrightarrow> start < ?j \<and> bitvec ! (?j - 1) \<noteq> CHR ''1''"
        using skip_ones_stop [of bitvec i] by blast
      show ?thesis
        using il gt less.prems(2) stop
        by (intro less.hyps [OF _ fo _ _ nw]) auto
    qed
  qed
qed

lemma no_idle_window_empty: "0 < m \<Longrightarrow> no_idle_window bitvec m i i"
  unfolding no_idle_window_def by auto

lemma scan_props:
  assumes mi: "1 \<le> min_idle"
  shows "\<forall>fp \<in> set found. well_delimited bitvec (nat min_idle) fp \<Longrightarrow>
         \<forall>fp \<in> set (scan bitvec min_idle i found). well_delimited bitvec (nat min_idle) fp"
proof (induction "length bitvec - i" arbitrary: i found rule: less_induct)
  case less
  show ?case
  proof (cases "i < length bitvec")
    case False
    then have "scan bitvec min_idle i found = found" by (subst scan.simps) simp
    then show ?thesis using less.prems by simp
  next
    case il: True
    show ?thesis
    proof (cases "bitvec ! i = CHR ''0''")
      case False
      then have "scan bitvec min_idle i found = scan bitvec min_idle (Suc i) found"
        using il by (subst scan.simps) simp
      moreover have "\<forall>fp \<in> set (scan bitvec min_idle (Suc i) found). well_delimited bitvec (nat min_idle) fp"
        using il by (intro less.hyps less.prems) auto
      ultimately show ?thesis by simp
    next
      case zero: True
      obtain i' r where fo: "frame_open bitvec min_idle i i = (i', r)"
        by (cases "frame_open bitvec min_idle i i")
      have "i < i'" using frame_open_gt [of i bitvec min_idle i] il zero fo by simp
      moreover have "i' \<le> length bitvec" using frame_open_le [of i bitvec min_idle i] il fo by simp
      ultimately have dec: "length bitvec - i' < length bitvec - i" using il by simp
      show ?thesis
      proof (cases r)
        case None
        then have "scan bitvec min_idle i found = scan bitvec min_idle i' found"
          using il zero fo by (subst scan.simps) simp
        then show ?thesis using less.hyps [OF dec less.prems] by simp
      next
        case (Some fp)
        have "well_delimited bitvec (nat min_idle) fp"
          using frame_open_props [OF mi zero, of i i' fp] fo Some zero mi
          by (simp add: no_idle_window_empty)
        then have "\<forall>x \<in> set (found @ [fp]). well_delimited bitvec (nat min_idle) x"
          using less.prems by simp
        from less.hyps [OF dec this]
        have "\<forall>x \<in> set (scan bitvec min_idle i' (found @ [fp])). well_delimited bitvec (nat min_idle) x" .
        moreover have "scan bitvec min_idle i found = scan bitvec min_idle i' (found @ [fp])"
          using il zero fo Some by (subst scan.simps) simp
        ultimately show ?thesis by simp
      qed
    qed
  qed
qed

lemma length_slice: "e \<le> length bitvec \<Longrightarrow> length (slice bitvec s e) = e - s"
  by (simp add: slice_def)

lemma nth_slice: "e \<le> length bitvec \<Longrightarrow> l < e - s \<Longrightarrow> slice bitvec s e ! l = bitvec ! (s + l)"
  by (simp add: slice_def)

lemma no_idle_window_no_sublist:
  assumes nw: "no_idle_window bitvec m s e" and e: "e \<le> length bitvec" and se: "s \<le> e"
  shows "\<not> sublist (replicate m CHR ''1'') (slice bitvec s e)"
proof
  assume "sublist (replicate m CHR ''1'') (slice bitvec s e)"
  then obtain ps ss where eq: "slice bitvec s e = ps @ replicate m CHR ''1'' @ ss"
    unfolding sublist_def by blast
  have len: "length ps + m + length ss = e - s"
    using length_slice [OF e, of s] unfolding eq by simp
  then have "s \<le> s + length ps \<and> s + length ps + m \<le> e" using se by linarith
  then obtain l where l: "s + length ps \<le> l" "l < s + length ps + m" "bitvec ! l \<noteq> CHR ''1''"
    using nw unfolding no_idle_window_def by blast
  have "l - s < e - s" using l len by linarith
  then have "slice bitvec s e ! (l - s) = bitvec ! (s + (l - s))" by (rule nth_slice [OF e])
  moreover have "s + (l - s) = l" using l(1) by simp
  moreover have "(ps @ replicate m CHR ''1'' @ ss) ! (l - s) = CHR ''1''"
  proof -
    define n where "n = l - s - length ps"
    have n: "n < m" and ls: "l - s = length ps + n" using l(1,2) unfolding n_def by linarith+
    have "(ps @ replicate m CHR ''1'' @ ss) ! (length ps + n) = (replicate m CHR ''1'' @ ss) ! n"
      by (rule nth_append_length_plus)
    also have "\<dots> = replicate m CHR ''1'' ! n" using n by (simp add: nth_append)
    also have "\<dots> = CHR ''1''" using n by simp
    finally show ?thesis unfolding ls .
  qed
  ultimately show False using l(3) unfolding eq by simp
qed

text \<open>
  C10. For a bitvector of binary digits and a minimum idle length of at least 1, every
  frame that the extraction loop finds is not empty, begins with \<open>'0'\<close>, ends with
  \<open>'0'\<close> and contains no run of \<open>min_idle\<close> consecutive \<open>'1'\<close>s. The frame is the slice
  of the bitvector between its start and its end, and the \<open>min_idle\<close> digits from the end
  on are the idle run, all \<open>'1'\<close>, which is therefore outside the frame.
\<close>

theorem extracted_frames_delimited:
  assumes mi: "1 \<le> min_idle"
    and binary: "set bitvec \<subseteq> {CHR ''0'', CHR ''1''}"
    and found: "(frame, (start, stop)) \<in> set (scan bitvec min_idle 0 [])"
  shows "frame \<noteq> [] \<and> hd frame = CHR ''0'' \<and> last frame = CHR ''0'' \<and>
         \<not> sublist (replicate (nat min_idle) CHR ''1'') frame \<and>
         frame = slice bitvec start stop \<and> start < stop \<and>
         stop + nat min_idle \<le> length bitvec \<and>
         slice bitvec stop (stop + nat min_idle) = replicate (nat min_idle) CHR ''1''"
proof -
  have "\<forall>fp \<in> set (scan bitvec min_idle 0 []). well_delimited bitvec (nat min_idle) fp"
    by (rule scan_props [OF mi]) simp
  then have wd: "well_delimited bitvec (nat min_idle) (frame, (start, stop))"
    using found by blast
  then have lt: "start < stop" and le: "stop + nat min_idle \<le> length bitvec"
    and f: "frame = slice bitvec start stop" and s0: "bitvec ! start = CHR ''0''"
    and e1: "bitvec ! (stop - 1) \<noteq> CHR ''1''"
    and nw: "no_idle_window bitvec (nat min_idle) start stop"
    and idle: "\<forall>k. stop \<le> k \<and> k < stop + nat min_idle \<longrightarrow> bitvec ! k = CHR ''1''"
    unfolding well_delimited_def by auto
  have stop_le: "stop \<le> length bitvec" using le by simp
  have len: "length frame = stop - start" unfolding f by (rule length_slice [OF stop_le])
  then have ne: "frame \<noteq> []" using lt by auto
  have "frame ! 0 = bitvec ! (start + 0)"
    unfolding f using lt by (intro nth_slice [OF stop_le]) simp
  then have h: "hd frame = CHR ''0''" using ne s0 by (simp add: hd_conv_nth)
  have "frame ! (stop - start - 1) = bitvec ! (start + (stop - start - 1))"
    unfolding f using lt by (intro nth_slice [OF stop_le]) simp
  moreover have "start + (stop - start - 1) = stop - 1" using lt by simp
  ultimately have "last frame = bitvec ! (stop - 1)"
    using ne len by (simp add: last_conv_nth)
  moreover have "bitvec ! (stop - 1) \<in> set bitvec" using stop_le lt by (intro nth_mem) simp
  ultimately have l: "last frame = CHR ''0''" using e1 binary by auto
  have ns: "\<not> sublist (replicate (nat min_idle) CHR ''1'') frame"
    unfolding f using lt by (intro no_idle_window_no_sublist [OF nw stop_le]) simp
  have "slice bitvec stop (stop + nat min_idle) = replicate (nat min_idle) CHR ''1''"
  proof (rule nth_equalityI)
    show "length (slice bitvec stop (stop + nat min_idle)) = length (replicate (nat min_idle) CHR ''1'')"
      using length_slice [OF le, of stop] by simp
  next
    fix k assume "k < length (slice bitvec stop (stop + nat min_idle))"
    then have k: "k < nat min_idle" using length_slice [OF le, of stop] by simp
    then have "slice bitvec stop (stop + nat min_idle) ! k = bitvec ! (stop + k)"
      by (intro nth_slice [OF le]) simp
    then show "slice bitvec stop (stop + nat min_idle) ! k = replicate (nat min_idle) CHR ''1'' ! k"
      using idle k by simp
  qed
  then show ?thesis using ne h l ns f lt le by blast
qed

theorem extracted_frames_delimited_witness:
  "hd ''0010'' = CHR ''0'' \<and> last ''0010'' = CHR ''0'' \<and>
   \<not> sublist (replicate (nat 3) CHR ''1'') ''0010'' \<and>
   ''0010'' = slice ''10010111001111'' 1 5 \<and>
   slice ''10010111001111'' 5 (5 + nat 3) = replicate (nat 3) CHR ''1''"
proof -
  have a: "(1 :: int) \<le> 3" by simp
  have b: "set ''10010111001111'' \<subseteq> {CHR ''0'', CHR ''1''}" by simp
  have "scan ''10010111001111'' 3 0 [] = [(''0010'', (1, 5)), (''00'', (8, 10))]" by code_simp
  then have c: "(''0010'', (1, 5)) \<in> set (scan ''10010111001111'' 3 0 [])" by simp
  show ?thesis using extracted_frames_delimited [OF a b c] by blast
qed

end
